theory Spec2Isabelle
  imports Main "HOL-Library.Sublist"
begin

section \<open>The ArtTable component: data model\<close>

text \<open>
  The component keeps its data in React state variables and talks to one remote
  endpoint, \<^verbatim>\<open>GET /artworks?page=k\<close>. Every handler is modelled as a transition on a
  record of the state variables. A handler reads the variables of the render it was
  created in and its \<^verbatim>\<open>set...\<close> calls take effect together, so a handler that runs
  alone is a function from the state before to the state after. Three logs make the
  effects on the outside world visible: the page requests issued, the toasts shown and
  the lines written by \<^verbatim>\<open>console.error\<close>.

  Identities, counts and page numbers are JavaScript numbers that only ever hold
  integers here; they are modelled as \<open>int\<close>.
\<close>

record Artwork =
  id_of :: int
  title :: string
  place_of_origin :: string
  artist_display :: string
  inscriptions :: string
  date_start :: int
  date_end :: int

text \<open>
  The body of a page response, \<^verbatim>\<open>{ data, pagination: { current_page, total_pages, total } }\<close>.
\<close>

record page_info =
  current_page :: int
  total_pages :: int
  total :: int

record page_body =
  data :: "Artwork list"
  pagination :: page_info

text \<open>
  The remote source is a function from the requested page number to what comes back:
  a body of the expected shape (\<open>Inr\<close>), or one of the answers that make a statement
  of a handler's \<^verbatim>\<open>try\<close> block throw (\<open>Inl\<close>):
  \<^item> \<open>NetworkError\<close>: the network call is rejected;
  \<^item> \<open>NotJson\<close>: the body is not JSON, or is \<^verbatim>\<open>null\<close>;
  \<^item> \<open>NoPagination\<close>: a JSON body with the array \<^verbatim>\<open>data\<close> and no \<^verbatim>\<open>pagination\<close>;
  \<^item> \<open>NoData\<close>: a JSON body with no \<^verbatim>\<open>data\<close>, with or without \<^verbatim>\<open>pagination\<close>
    (an error report of the service, say).

  A field that is present holds a value of its declared type. Which statement throws,
  and what has been done before it, differs between the two fetching functions.
\<close>

datatype fetch_error =
  NetworkError | NotJson | NoPagination "Artwork list" | NoData "page_info option"

type_synonym source = "int \<Rightarrow> fetch_error + page_body"

record toast_message =
  severity :: string
  summary :: string
  detail :: string

record ArtTable =
  artworks :: "Artwork list"
  loading :: bool
  totalRecords :: int
  page :: int
  selectedRows :: "Artwork list"
  persistedSelection :: "int \<rightharpoonup> Artwork"
  selectCount :: int
  allFetchedArtworks :: "Artwork list"
  overlayLoading :: bool
  overlayVisible :: bool
  toasts :: "toast_message list"
  requests :: "int list"
  console :: "string list"

text \<open>The state of a freshly mounted component, before its first page request.\<close>

definition initial :: ArtTable where
  "initial =
     \<lparr>artworks = [], loading = False, totalRecords = 0, page = 1, selectedRows = [],
      persistedSelection = Map.empty, selectCount = 0, allFetchedArtworks = [],
      overlayLoading = False, overlayVisible = False, toasts = [], requests = [],
      console = []\<rparr>"

text \<open>Template literals render a count in decimal.\<close>

fun decimal :: "nat \<Rightarrow> string" where
  "decimal n =
     (if n < 10 then [''0123456789'' ! n]
      else decimal (n div 10) @ [''0123456789'' ! (n mod 10)])"

section \<open>Single-page load and the checked rows of the visible page\<close>

text \<open>
  \<^verbatim>\<open>fetchArtworks\<close>: request one page, pass \<^verbatim>\<open>data.data\<close> to \<^verbatim>\<open>setArtworks\<close>, then
  \<^verbatim>\<open>data.pagination.total\<close> to \<^verbatim>\<open>setTotalRecords\<close>; log any exception; clear the
  loading flag on every path. The two set calls are separate statements:
  \<^item> a rejected request and a body that is not JSON throw before \<^verbatim>\<open>setArtworks\<close>;
  \<^item> a body without \<^verbatim>\<open>pagination\<close> throws after \<^verbatim>\<open>setArtworks\<close> has been called;
  \<^item> a body without \<^verbatim>\<open>data\<close> passes \<^verbatim>\<open>undefined\<close> to \<^verbatim>\<open>setArtworks\<close>, and throws
    afterwards only if \<^verbatim>\<open>pagination\<close> is missing too.

  The state record holds an array in \<open>artworks\<close>, so the call of \<^verbatim>\<open>setArtworks\<close> is
  returned beside the state in which every other set call has taken effect; the render
  that follows (\<open>loadPage\<close> below) applies it.
\<close>

datatype setArtworks_call = NotCalled | CalledWith "Artwork list" | CalledWithUndefined

definition fetchArtworks ::
  "source \<Rightarrow> int \<Rightarrow> ArtTable \<Rightarrow> setArtworks_call \<times> ArtTable" where
  "fetchArtworks src pageNumber s =
     (let s1 = s\<lparr>loading := True, requests := requests s @ [pageNumber]\<rparr>;
          caught = s1\<lparr>console := console s1 @ [''Error fetching artworks:''],
                      loading := False\<rparr>
      in case src pageNumber of
           Inr body \<Rightarrow>
             (CalledWith (data body),
              s1\<lparr>totalRecords := total (pagination body), loading := False\<rparr>)
         | Inl NetworkError \<Rightarrow> (NotCalled, caught)
         | Inl NotJson \<Rightarrow> (NotCalled, caught)
         | Inl (NoPagination records) \<Rightarrow> (CalledWith records, caught)
         | Inl (NoData None) \<Rightarrow> (CalledWithUndefined, caught)
         | Inl (NoData (Some info)) \<Rightarrow>
             (CalledWithUndefined, s1\<lparr>totalRecords := total info, loading := False\<rparr>))"

text \<open>
  The effect that depends on \<^verbatim>\<open>artworks\<close> (``Sync selected rows on page change''):
  the checked rows become the records of the page whose identity is a key of the
  persisted selection. A stored value is a record object, which is always truthy.
\<close>

definition syncSelectedRows :: "ArtTable \<Rightarrow> ArtTable" where
  "syncSelectedRows s =
     (let currentPageSelected =
            filter (\<lambda>a. persistedSelection s (id_of a) \<noteq> None) (artworks s)
      in s\<lparr>selectedRows := currentPageSelected\<rparr>)"

text \<open>
  The effect that depends on \<^verbatim>\<open>page\<close> calls \<^verbatim>\<open>fetchArtworks\<close>, and the render after
  it runs the sync effect whenever \<^verbatim>\<open>artworks\<close> has a new value:
  \<^item> when \<^verbatim>\<open>setArtworks\<close> was not called, \<^verbatim>\<open>artworks\<close> keeps its array and the effect
    does not run;
  \<^item> when it was called with an array (a new one, parsed from the body), the effect
    runs on that array, also when \<^verbatim>\<open>fetchArtworks\<close> threw afterwards;
  \<^item> when it was called with \<^verbatim>\<open>undefined\<close>, the effect evaluates
    \<^verbatim>\<open>undefined.filter\<close>; the \<^verbatim>\<open>TypeError\<close> is thrown in no \<^verbatim>\<open>try\<close> block and no
    component of the application catches it, so the component is unmounted and has no
    state any more.
\<close>

datatype crash = Unmounted

definition loadPage :: "source \<Rightarrow> int \<Rightarrow> ArtTable \<Rightarrow> crash + ArtTable" where
  "loadPage src pageNumber s =
     (case fetchArtworks src pageNumber s of
        (NotCalled, s1) \<Rightarrow> Inr s1
      | (CalledWith records, s1) \<Rightarrow> Inr (syncSelectedRows (s1\<lparr>artworks := records\<rparr>))
      | (CalledWithUndefined, s1) \<Rightarrow> Inl Unmounted)"

text \<open>
  \<^verbatim>\<open>onPageChange\<close>: the paginator reports a 0-based page; setting \<^verbatim>\<open>page\<close> to the value
  it already has triggers no effect.
\<close>

definition onPageChange :: "source \<Rightarrow> int \<Rightarrow> ArtTable \<Rightarrow> crash + ArtTable" where
  "onPageChange src eventPage s =
     (if eventPage + 1 = page s then Inr s
      else loadPage src (eventPage + 1) (s\<lparr>page := eventPage + 1\<rparr>))"

section \<open>Manual selection on the visible page\<close>

text \<open>
  The two \<^verbatim>\<open>forEach\<close> loops over records that update a copy of the persisted
  selection: \<^verbatim>\<open>delete updated[art.id]\<close> and \<^verbatim>\<open>updated[art.id] = art\<close>, in list order.

  \<^verbatim>\<open>onSelectionChange\<close>: copy the persisted selection, delete the key of every record of
  the current page, then store every record of the reported selection under its key.
\<close>

primrec deleteEach :: "Artwork list \<Rightarrow> (int \<rightharpoonup> Artwork) \<Rightarrow> (int \<rightharpoonup> Artwork)" where
  "deleteEach [] updated = updated"
| "deleteEach (art # arts) updated = deleteEach arts (updated(id_of art := None))"

primrec storeEach :: "Artwork list \<Rightarrow> (int \<rightharpoonup> Artwork) \<Rightarrow> (int \<rightharpoonup> Artwork)" where
  "storeEach [] updated = updated"
| "storeEach (art # arts) updated = storeEach arts (updated(id_of art \<mapsto> art))"

definition onSelectionChange :: "Artwork list \<Rightarrow> ArtTable \<Rightarrow> ArtTable" where
  "onSelectionChange newSelection s =
     (let updatedPersisted = persistedSelection s;
          updatedPersisted = deleteEach (artworks s) updatedPersisted;
          updatedPersisted = storeEach newSelection updatedPersisted
      in s\<lparr>persistedSelection := updatedPersisted, selectedRows := newSelection\<rparr>)"

text \<open>\<^verbatim>\<open>handleSubmit\<close>: report the number of keys of the persisted selection.\<close>

definition handleSubmit :: "ArtTable \<Rightarrow> ArtTable" where
  "handleSubmit s =
     (let total = card (dom (persistedSelection s))
      in s\<lparr>toasts := toasts s @
           [\<lparr>severity = ''info'', summary = ''Selected Artworks'',
             detail = decimal total @ '' rows selected''\<rparr>]\<rparr>)"

section \<open>Bulk fetch\<close>

text \<open>
  One round of the loop body of \<^verbatim>\<open>fetchAllArtworks\<close> after the body has arrived: keep
  the records of the page whose identity has not been seen, mark their identities as
  seen, append them. The filter runs against the identities seen before this page.
\<close>

primrec addEach :: "Artwork list \<Rightarrow> int set \<Rightarrow> int set" where
  "addEach [] seenIds = seenIds"
| "addEach (item # items) seenIds = addEach items (insert (id_of item) seenIds)"

definition addPage ::
  "Artwork list \<Rightarrow> Artwork list \<times> int set \<Rightarrow> Artwork list \<times> int set" where
  "addPage pageData acc =
     (case acc of (fetched, seenIds) \<Rightarrow>
        let uniqueNew = filter (\<lambda>item. id_of item \<notin> seenIds) pageData;
            seenIds = addEach uniqueNew seenIds
        in (fetched @ uniqueNew, seenIds))"

text \<open>
  The \<^verbatim>\<open>while\<close> loop of \<^verbatim>\<open>fetchAllArtworks\<close> with its local variables \<^verbatim>\<open>fetched\<close>,
  \<^verbatim>\<open>seenIds\<close> and \<^verbatim>\<open>currentPage\<close>, and the log of requests issued. The loop has no
  bound of its own: a source that never reports its last page and never brings a new
  record keeps it running, and then the result is \<open>None\<close>. Otherwise the result is the
  request log together with either the exception thrown in the \<^verbatim>\<open>try\<close> block or the
  accumulated list.
\<close>

partial_function (option) fetchLoop ::
  "source \<Rightarrow> int \<Rightarrow> Artwork list \<Rightarrow> int set \<Rightarrow> int \<Rightarrow> int list
     \<Rightarrow> (int list \<times> (fetch_error + Artwork list)) option" where
  "fetchLoop src maxNeeded fetched seenIds currentPage log =
     (if int (length fetched) < maxNeeded then
        (case src currentPage of
           Inl err \<Rightarrow> Some (log @ [currentPage], Inl err)
         | Inr body \<Rightarrow>
             (case addPage (data body) (fetched, seenIds) of (fetched', seenIds') \<Rightarrow>
                if current_page (pagination body) \<ge> total_pages (pagination body)
                then Some (log @ [currentPage], Inr fetched')
                else fetchLoop src maxNeeded fetched' seenIds' (currentPage + 1)
                       (log @ [currentPage])))
      else Some (log, Inr fetched))"

text \<open>
  \<^verbatim>\<open>fetchAllArtworks\<close>: run the loop from page 1 with empty accumulators. When the loop
  ends normally the accumulated list replaces the cache and is returned; when the
  \<^verbatim>\<open>try\<close> block throws, the exception is logged and the empty list is returned. The
  busy flag of the overlay is cleared on both paths.
\<close>

definition fetchAllArtworks ::
  "source \<Rightarrow> int \<Rightarrow> ArtTable \<Rightarrow> (Artwork list \<times> ArtTable) option" where
  "fetchAllArtworks src maxNeeded s =
     (let s1 = s\<lparr>overlayLoading := True\<rparr>
      in case fetchLoop src maxNeeded [] {} 1 (requests s1) of
           None \<Rightarrow> None
         | Some (log, Inr fetched) \<Rightarrow>
             Some (fetched,
                   s1\<lparr>requests := log, allFetchedArtworks := fetched,
                      overlayLoading := False\<rparr>)
         | Some (log, Inl err) \<Rightarrow>
             Some ([],
                   s1\<lparr>requests := log,
                      console := console s1 @ [''Error fetching all artworks:''],
                      overlayLoading := False\<rparr>))"

section \<open>Bulk select\<close>

text \<open>
  \<^verbatim>\<open>handleSelectCount\<close>, in the three parts of its body: the guard on the count, the
  choice of the records to draw from (the cache when it is long enough, a bulk fetch
  otherwise), and the commit of the first \<^verbatim>\<open>selectCount\<close> of them.
\<close>

definition allData_of ::
  "source \<Rightarrow> ArtTable \<Rightarrow> (Artwork list \<times> ArtTable) option" where
  "allData_of src s =
     (let allData = allFetchedArtworks s
      in if int (length allData) < selectCount s
         then fetchAllArtworks src (selectCount s) s
         else Some (allData, s))"

definition commitRows :: "Artwork list \<Rightarrow> ArtTable \<Rightarrow> ArtTable" where
  "commitRows allData s =
     (let rowsToSelect = take (nat (selectCount s)) allData;
          updatedPersisted = storeEach rowsToSelect (persistedSelection s)
      in s\<lparr>persistedSelection := updatedPersisted,
           selectedRows := filter (\<lambda>a. updatedPersisted (id_of a) \<noteq> None) (artworks s),
           overlayVisible := False,
           toasts := toasts s @
             [\<lparr>severity = ''success'', summary = ''Selection Updated'',
               detail = ''Selected top '' @ decimal (card (dom updatedPersisted))
                          @ '' rows (global)''\<rparr>]\<rparr>)"

definition handleSelectCount :: "source \<Rightarrow> ArtTable \<Rightarrow> ArtTable option" where
  "handleSelectCount src s =
     (if selectCount s \<le> 0 then
        Some (s\<lparr>toasts := toasts s @
                [\<lparr>severity = ''warn'', summary = ''Invalid Number'',
                  detail = ''Please enter a positive number''\<rparr>]\<rparr>)
      else
        (case allData_of src s of
           None \<Rightarrow> None
         | Some (allData, s1) \<Rightarrow> Some (commitRows allData s1)))"

text \<open>
  The overlay: the button in the column header toggles it, and its number field stores
  \<^verbatim>\<open>e.value || 0\<close>, so that an empty field and the value 0 both store 0.
\<close>

definition toggleOverlay :: "ArtTable \<Rightarrow> ArtTable" where
  "toggleOverlay s = s\<lparr>overlayVisible := \<not> overlayVisible s\<rparr>"

definition onValueChange :: "int option \<Rightarrow> ArtTable \<Rightarrow> ArtTable" where
  "onValueChange v s =
     s\<lparr>selectCount := (case v of None \<Rightarrow> 0 | Some n \<Rightarrow> if n = 0 then 0 else n)\<rparr>"

section \<open>Notions used to state the properties\<close>

text \<open>
  The local variables \<^verbatim>\<open>fetched\<close> and \<^verbatim>\<open>seenIds\<close> of the bulk-fetch loop after \<open>m\<close>
  rounds that all went on to the next page: in each of them the loop test held, the
  requested page arrived and it was not reported as the last one. \<open>None\<close> when the
  loop does not get that far.
\<close>

fun after_rounds :: "source \<Rightarrow> int \<Rightarrow> nat \<Rightarrow> (Artwork list \<times> int set) option" where
  "after_rounds src maxNeeded 0 = Some ([], {})"
| "after_rounds src maxNeeded (Suc m) =
     (case after_rounds src maxNeeded m of
        None \<Rightarrow> None
      | Some (fetched, seenIds) \<Rightarrow>
          if int (length fetched) < maxNeeded then
            (case src (int m + 1) of
               Inl err \<Rightarrow> None
             | Inr body \<Rightarrow>
                 if current_page (pagination body) \<ge> total_pages (pagination body)
                 then None
                 else Some (addPage (data body) (fetched, seenIds)))
          else None)"

text \<open>The records that arrive when the given pages are requested in turn.\<close>

definition arrivals :: "source \<Rightarrow> int list \<Rightarrow> Artwork list" where
  "arrivals src pages =
     concat (map (\<lambda>p. case src p of Inr body \<Rightarrow> data body | Inl err \<Rightarrow> []) pages)"

text \<open>
  Of a sequence of arriving records, the first one of every identity that is not in
  \<open>seen\<close>, in arrival order.
\<close>

fun first_arrivals :: "int set \<Rightarrow> Artwork list \<Rightarrow> Artwork list" where
  "first_arrivals seen [] = []"
| "first_arrivals seen (a # as) =
     (if id_of a \<in> seen then first_arrivals seen as
      else a # first_arrivals (insert (id_of a) seen) as)"


text \<open>
  The states of a session against a source whose answers do not change: the state
  after the first page load, followed by any sequence of the handlers, for as long as
  the component is mounted.
\<close>

inductive session :: "source \<Rightarrow> ArtTable \<Rightarrow> bool" for src :: source where
  mounted: "loadPage src 1 initial = Inr s \<Longrightarrow> session src s"
| paged: "session src s \<Longrightarrow> onPageChange src eventPage s = Inr s' \<Longrightarrow> session src s'"
| edited: "session src s \<Longrightarrow> session src (onSelectionChange newSelection s)"
| toggled: "session src s \<Longrightarrow> session src (toggleOverlay s)"
| typed: "session src s \<Longrightarrow> session src (onValueChange v s)"
| submitted: "session src s \<Longrightarrow> session src (handleSubmit s)"
| bulk: "session src s \<Longrightarrow> handleSelectCount src s = Some s' \<Longrightarrow> session src s'"

subsection \<open>Sample data\<close>

definition artwork :: "int \<Rightarrow> string \<Rightarrow> Artwork" where
  "artwork i t =
     \<lparr>id_of = i, title = t, place_of_origin = ''Paris'', artist_display = ''Anonymous'',
      inscriptions = [], date_start = 1900, date_end = 1901\<rparr>"

definition body_of :: "Artwork list \<Rightarrow> int \<Rightarrow> int \<Rightarrow> page_body" where
  "body_of records current pages =
     \<lparr>data = records,
      pagination = \<lparr>current_page = current, total_pages = pages, total = 10 * pages\<rparr>\<rparr>"

text \<open>A collection of three pages of two records; every other page request fails.\<close>

definition three_pages :: source where
  "three_pages p =
     (if p = 1 then Inr (body_of [artwork 1 ''A'', artwork 2 ''B''] 1 3)
      else if p = 2 then Inr (body_of [artwork 3 ''C'', artwork 4 ''D''] 2 3)
      else if p = 3 then Inr (body_of [artwork 5 ''E'', artwork 6 ''F''] 3 3)
      else Inl NetworkError)"


text \<open>The same collection when the request for its second page fails.\<close>

definition second_page_fails :: source where
  "second_page_fails p = (if p = 1 then three_pages 1 else Inl NetworkError)"

text \<open>A collection whose second page repeats the last record of the first page.\<close>

definition overlapping_pages :: source where
  "overlapping_pages p =
     (if p = 1 then Inr (body_of [artwork 1 ''A'', artwork 2 ''B''] 1 2)
      else if p = 2 then Inr (body_of [artwork 2 ''B'', artwork 3 ''C''] 2 2)
      else Inl NetworkError)"

text \<open>Another collection behind the same endpoint: one page of three other records.\<close>

definition replaced_collection :: source where
  "replaced_collection p =
     (if p = 1 then Inr (body_of [artwork 7 ''G'', artwork 8 ''H'', artwork 9 ''I''] 1 1)
      else Inl NetworkError)"

text \<open>A single page that lists the same record twice.\<close>

definition repeating_page :: source where
  "repeating_page p =
     (if p = 1 then Inr (body_of [artwork 1 ''A'', artwork 1 ''A''] 1 1)
      else Inl NetworkError)"

text \<open>
  A component showing page 1 of \<open>three_pages\<close>, with records 1 and 2 of that page and
  record 30 of another page selected.
\<close>

definition page_one :: ArtTable where
  "page_one =
     initial\<lparr>artworks := [artwork 1 ''A'', artwork 2 ''B''], totalRecords := 30,
       selectedRows := [artwork 1 ''A'', artwork 2 ''B''],
       persistedSelection :=
         [1 \<mapsto> artwork 1 ''A'', 2 \<mapsto> artwork 2 ''B'', 30 \<mapsto> artwork 30 ''Z''],
       requests := [1]\<rparr>"

text \<open>
  The same component with the two records of page 1 of \<open>three_pages\<close> in the cache and
  3 typed into the number field.
\<close>

definition cached_two :: ArtTable where
  "cached_two =
     page_one\<lparr>selectCount := 3, allFetchedArtworks := [artwork 1 ''A'', artwork 2 ''B''],
       requests := [1, 1]\<rparr>"

section \<open>Properties of the selection store\<close>

subsection \<open>The two update loops\<close>

lemma deleteEach_apply:
  "deleteEach xs m k = (if k \<in> id_of ` set xs then None else m k)"
  by (induction xs arbitrary: m) auto

lemma storeEach_apply:
  "storeEach xs m k =
     (case map_of (rev (map (\<lambda>a. (id_of a, a)) xs)) k of Some a \<Rightarrow> Some a | None \<Rightarrow> m k)"
  by (induction xs arbitrary: m) (auto simp: map_add_def split: option.splits)

lemma storeEach_other:
  "k \<notin> id_of ` set xs \<Longrightarrow> storeEach xs m k = m k"
  by (induction xs arbitrary: m) auto

lemma dom_storeEach:
  "dom (storeEach xs m) = dom m \<union> id_of ` set xs"
  by (induction xs arbitrary: m) auto

lemma storeEach_twice:
  "storeEach xs (storeEach xs m) = storeEach xs m"
  by (rule ext) (simp add: storeEach_apply split: option.splits)

lemma storeEach_mem:
  "\<forall>b \<in> set xs. id_of b = id_of a \<longrightarrow> b = a \<Longrightarrow> a \<in> set xs
     \<Longrightarrow> storeEach xs m (id_of a) = Some a"
proof (induction xs arbitrary: m)
  case Nil
  then show ?case by simp
next
  case (Cons x xs)
  show ?case
  proof (cases "a \<in> set xs")
    case True
    with Cons show ?thesis by simp
  next
    case False
    with Cons.prems have "x = a" and "id_of a \<notin> id_of ` set xs" by auto
    then show ?thesis by (simp add: storeEach_other)
  qed
qed

subsection \<open>Manual selection\<close>

text \<open>
  Claim C1. Let the reported selection consist of records of the current page. After
  \<open>onSelectionChange\<close> the persisted selection has the identity of a record of the
  current page as a key exactly when that identity is among the reported selection;
  when the identities on the page are pairwise different this says that the store holds
  the record itself exactly when the record is in the reported selection. Every key
  that is not the identity of a record of the current page maps to what it mapped to
  before.
\<close>

theorem manual_selection_mirrors_page:
  assumes "set newSelection \<subseteq> set (artworks s)"
  shows "(\<forall>a \<in> set (artworks s).
            (persistedSelection (onSelectionChange newSelection s) (id_of a) \<noteq> None)
              = (id_of a \<in> id_of ` set newSelection))
       \<and> (distinct (map id_of (artworks s)) \<longrightarrow>
            (\<forall>a \<in> set (artworks s).
               (persistedSelection (onSelectionChange newSelection s) (id_of a) = Some a)
                 = (a \<in> set newSelection)))
       \<and> (\<forall>k. k \<notin> id_of ` set (artworks s) \<longrightarrow>
            persistedSelection (onSelectionChange newSelection s) k = persistedSelection s k)"
proof (intro conjI impI ballI allI)
  let ?m = "persistedSelection (onSelectionChange newSelection s)"
  have m: "?m = storeEach newSelection (deleteEach (artworks s) (persistedSelection s))"
    by (simp add: onSelectionChange_def)
  have dom: "dom ?m = (dom (persistedSelection s) - id_of ` set (artworks s)) \<union> id_of ` set newSelection"
    unfolding m dom_storeEach by (auto simp: dom_def deleteEach_apply)
  { fix a assume a: "a \<in> set (artworks s)"
    have "(?m (id_of a) \<noteq> None) = (id_of a \<in> dom ?m)" by (simp add: dom_def)
    also have "\<dots> = (id_of a \<in> id_of ` set newSelection)"
      unfolding dom using a by auto
    finally show "(?m (id_of a) \<noteq> None) = (id_of a \<in> id_of ` set newSelection)" . }
  { fix k assume k: "k \<notin> id_of ` set (artworks s)"
    then have "k \<notin> id_of ` set newSelection" using assms by auto
    then show "?m k = persistedSelection s k"
      unfolding m using k by (simp add: storeEach_other deleteEach_apply) }
  { fix a assume d: "distinct (map id_of (artworks s))" and a: "a \<in> set (artworks s)"
    have inj: "inj_on id_of (set (artworks s))" using d by (simp add: distinct_map)
    show "(?m (id_of a) = Some a) = (a \<in> set newSelection)"
    proof
      assume "?m (id_of a) = Some a"
      then have "id_of a \<in> dom ?m" by (simp add: dom_def)
      then have "id_of a \<in> id_of ` set newSelection" unfolding dom using a by auto
      then obtain b where b: "b \<in> set newSelection" "id_of b = id_of a" by auto
      with assms a inj have "b = a" by (auto dest: inj_onD)
      with b show "a \<in> set newSelection" by simp
    next
      assume an: "a \<in> set newSelection"
      have "\<forall>b \<in> set newSelection. id_of b = id_of a \<longrightarrow> b = a"
        using assms a inj by (auto dest: inj_onD)
      with an show "?m (id_of a) = Some a" unfolding m by (simp add: storeEach_mem)
    qed }
qed

theorem manual_selection_mirrors_page_witness:
  "set [artwork 1 ''A''] \<subseteq> set (artworks page_one)
   \<and> distinct (map id_of (artworks page_one))
   \<and> persistedSelection (onSelectionChange [artwork 1 ''A''] page_one) 1 = Some (artwork 1 ''A'')
   \<and> persistedSelection (onSelectionChange [artwork 1 ''A''] page_one) 2 = None
   \<and> persistedSelection (onSelectionChange [artwork 1 ''A''] page_one) 30
       = persistedSelection page_one 30"
  using manual_selection_mirrors_page [of "[artwork 1 ''A'']" page_one]
  by (simp add: page_one_def initial_def artwork_def)

section \<open>Properties of the bulk-fetch loop\<close>

lemma addEach_conv: "addEach xs S = S \<union> id_of ` set xs"
  by (induction xs arbitrary: S) auto

lemma addPage_conv:
  "addPage d (f, seen) = (f @ filter (\<lambda>item. id_of item \<notin> seen) d, seen \<union> id_of ` set d)"
  by (auto simp: addPage_def Let_def addEach_conv)

lemma fetchLoop_stop:
  "\<not> int (length f) < n \<Longrightarrow> fetchLoop src n f seen cur log = Some (log, Inr f)"
  by (subst fetchLoop.simps) simp

lemma fetchLoop_fail:
  "int (length f) < n \<Longrightarrow> src cur = Inl e
     \<Longrightarrow> fetchLoop src n f seen cur log = Some (log @ [cur], Inl e)"
  by (subst fetchLoop.simps) simp

lemma fetchLoop_last:
  "int (length f) < n \<Longrightarrow> src cur = Inr body
     \<Longrightarrow> total_pages (pagination body) \<le> current_page (pagination body)
     \<Longrightarrow> fetchLoop src n f seen cur log =
           Some (log @ [cur], Inr (f @ filter (\<lambda>item. id_of item \<notin> seen) (data body)))"
  by (subst fetchLoop.simps) (simp add: addPage_conv)

lemma fetchLoop_next:
  "int (length f) < n \<Longrightarrow> src cur = Inr body
     \<Longrightarrow> \<not> total_pages (pagination body) \<le> current_page (pagination body)
     \<Longrightarrow> fetchLoop src n f seen cur log =
           fetchLoop src n (f @ filter (\<lambda>item. id_of item \<notin> seen) (data body))
             (seen \<union> id_of ` set (data body)) (cur + 1) (log @ [cur])"
  by (subst fetchLoop.simps) (simp add: addPage_conv)

lemma fetchLoop_induct [consumes 1, case_names stop fail last continue]:
  assumes run: "fetchLoop src n f seen cur log = Some y"
    and stop: "\<And>f seen cur log. \<not> int (length f) < n \<Longrightarrow> P f seen cur log (log, Inr f)"
    and fail: "\<And>f seen cur log e. int (length f) < n \<Longrightarrow> src cur = Inl e
                 \<Longrightarrow> P f seen cur log (log @ [cur], Inl e)"
    and last: "\<And>f seen cur log body. int (length f) < n \<Longrightarrow> src cur = Inr body
                 \<Longrightarrow> total_pages (pagination body) \<le> current_page (pagination body)
                 \<Longrightarrow> P f seen cur log
                       (log @ [cur], Inr (f @ filter (\<lambda>item. id_of item \<notin> seen) (data body)))"
    and continue: "\<And>f seen cur log body y. int (length f) < n \<Longrightarrow> src cur = Inr body
                 \<Longrightarrow> \<not> total_pages (pagination body) \<le> current_page (pagination body)
                 \<Longrightarrow> fetchLoop src n (f @ filter (\<lambda>item. id_of item \<notin> seen) (data body))
                       (seen \<union> id_of ` set (data body)) (cur + 1) (log @ [cur]) = Some y
                 \<Longrightarrow> P (f @ filter (\<lambda>item. id_of item \<notin> seen) (data body))
                       (seen \<union> id_of ` set (data body)) (cur + 1) (log @ [cur]) y
                 \<Longrightarrow> P f seen cur log y"
  shows "P f seen cur log y"
proof -
  let ?Q = "\<lambda>src' n' f seen cur log y.
              src' = src \<and> n' = n \<longrightarrow> fetchLoop src n f seen cur log = Some y \<and> P f seen cur log y"
  have "?Q src n f seen cur log y"
  proof (rule fetchLoop.raw_induct [where P = ?Q, OF _ run], goal_cases)
    case (1 loop src' n' f seen cur log y)
    show ?case
    proof (intro impI, elim conjE)
      assume eq: "src' = src" "n' = n"
      note IH = 1(1) and body = 1(2)[unfolded eq]
      show "fetchLoop src n f seen cur log = Some y \<and> P f seen cur log y"
      proof (cases "int (length f) < n")
        case False
        with body stop show ?thesis by (auto simp: fetchLoop_stop)
      next
        case lt: True
        show ?thesis
        proof (cases "src cur")
          case (Inl e)
          with body lt fail show ?thesis by (auto simp: fetchLoop_fail)
        next
          case (Inr b)
          show ?thesis
          proof (cases "total_pages (pagination b) \<le> current_page (pagination b)")
            case True
            with body lt Inr last show ?thesis by (auto simp: fetchLoop_last addPage_conv)
          next
            case False
            with body lt Inr have
              "loop src n (f @ filter (\<lambda>item. id_of item \<notin> seen) (data b))
                 (seen \<union> id_of ` set (data b)) (cur + 1) (log @ [cur]) = Some y"
              by (simp add: addPage_conv)
            from IH[OF this] have
              r: "fetchLoop src n (f @ filter (\<lambda>item. id_of item \<notin> seen) (data b))
                 (seen \<union> id_of ` set (data b)) (cur + 1) (log @ [cur]) = Some y"
              and p: "P (f @ filter (\<lambda>item. id_of item \<notin> seen) (data b))
                 (seen \<union> id_of ` set (data b)) (cur + 1) (log @ [cur]) y"
              by simp_all
            from r lt Inr False have "fetchLoop src n f seen cur log = Some y"
              by (simp add: fetchLoop_next)
            moreover from lt Inr False r p have "P f seen cur log y" by (rule continue)
            ultimately show ?thesis ..
          qed
        qed
      qed
    qed
  qed
  then show ?thesis by blast
qed

lemma fetchLoop_prefix:
  "fetchLoop src n f seen cur log = Some y \<Longrightarrow> snd y = Inr r \<Longrightarrow> prefix f r"
  by (induction arbitrary: r rule: fetchLoop_induct) (auto dest: append_prefixD)

text \<open>The result does not depend on the requests logged before.\<close>

lemma fetchLoop_log:
  "fetchLoop src n f seen cur log = Some y \<Longrightarrow>
     \<exists>pages. fst y = log @ pages \<and>
       (\<forall>log'. fetchLoop src n f seen cur log' = Some (log' @ pages, snd y))"
proof (induction rule: fetchLoop_induct)
  case (stop f seen cur log)
  then show ?case by (simp add: fetchLoop_stop)
next
  case (fail f seen cur log e)
  then show ?case by (simp add: fetchLoop_fail)
next
  case (last f seen cur log body)
  then show ?case by (simp add: fetchLoop_last)
next
  case (continue f seen cur log body y)
  then obtain pages where "fst y = (log @ [cur]) @ pages"
    and "\<forall>log'. fetchLoop src n (f @ filter (\<lambda>item. id_of item \<notin> seen) (data body))
           (seen \<union> id_of ` set (data body)) (cur + 1) log' = Some (log' @ pages, snd y)"
    by blast
  with continue(1,2,3) show ?case
    by (intro exI[of _ "cur # pages"]) (simp add: fetchLoop_next)
qed

lemma fetchLoop_compare:
  "fetchLoop src n f seen cur log = Some y \<Longrightarrow> snd y = Inr r1 \<Longrightarrow>
   fetchLoop src n' f seen cur log' = Some (l2, Inr r2) \<Longrightarrow>
   int (length r1) < n' \<Longrightarrow> prefix r1 r2"
proof (induction arbitrary: log' rule: fetchLoop_induct)
  case (stop f seen cur log)
  then show ?case using fetchLoop_prefix[of src n' f seen cur log' "(l2, Inr r2)" r2] by simp
next
  case (fail f seen cur log e)
  then show ?case by simp
next
  case (last f seen cur log body)
  then have "int (length f) < n'" by auto
  with last show ?case by (auto simp: fetchLoop_last)
next
  case (continue f seen cur log body y)
  from continue(4,6) have "prefix (f @ filter (\<lambda>item. id_of item \<notin> seen) (data body)) r1"
    by (rule fetchLoop_prefix)
  then have "length f \<le> length r1" by (auto simp: prefix_def)
  with continue show ?case by (simp add: fetchLoop_next)
qed

text \<open>
  The loop returns whenever some page from the current one on fails or is reported as
  the last one.
\<close>

lemma fetchLoop_completes:
  assumes "cur \<le> p"
    and "case src p of Inl err \<Rightarrow> True
         | Inr body \<Rightarrow> total_pages (pagination body) \<le> current_page (pagination body)"
  shows "\<exists>y. fetchLoop src n f seen cur log = Some y"
  using assms(1)
proof (induction "nat (p - cur)" arbitrary: f seen cur log)
  case 0
  then have cur: "cur = p" by simp
  show ?case
  proof (cases "int (length f) < n")
    case False
    then show ?thesis by (simp add: fetchLoop_stop)
  next
    case True
    with assms(2) cur show ?thesis
      by (cases "src p") (simp_all add: fetchLoop_fail fetchLoop_last)
  qed
next
  case (Suc k)
  show ?case
  proof (cases "int (length f) < n")
    case False
    then show ?thesis by (simp add: fetchLoop_stop)
  next
    case lt: True
    show ?thesis
    proof (cases "src cur")
      case (Inl e)
      with lt show ?thesis by (simp add: fetchLoop_fail)
    next
      case (Inr body)
      show ?thesis
      proof (cases "total_pages (pagination body) \<le> current_page (pagination body)")
        case True
        with lt Inr show ?thesis by (simp add: fetchLoop_last)
      next
        case False
        from Suc(2) have "k = nat (p - (cur + 1))" "cur + 1 \<le> p" by simp_all
        from Suc(1)[OF this] lt Inr False show ?thesis by (simp add: fetchLoop_next)
      qed
    qed
  qed
qed

section \<open>Properties of the handlers\<close>

text \<open>Unfolding a handler on the sample data.\<close>

lemmas run_simps = page_one_def initial_def artwork_def body_of_def three_pages_def second_page_fails_def
  handleSelectCount_def allData_of_def fetchAllArtworks_def commitRows_def Let_def
  fetchLoop_stop fetchLoop_fail fetchLoop_last fetchLoop_next
  loadPage_def fetchArtworks_def syncSelectedRows_def onPageChange_def

lemma allData_of_cached:
  "\<not> int (length (allFetchedArtworks s)) < selectCount s
     \<Longrightarrow> allData_of src s = Some (allFetchedArtworks s, s)"
  by (simp add: allData_of_def)

lemma allData_of_fetch:
  "int (length (allFetchedArtworks s)) < selectCount s
     \<Longrightarrow> allData_of src s = fetchAllArtworks src (selectCount s) s"
  by (simp add: allData_of_def)

lemma fetchAllArtworks_fields:
  "fetchAllArtworks src n s = Some (allData, s1) \<Longrightarrow>
     persistedSelection s1 = persistedSelection s \<and> selectCount s1 = selectCount s
     \<and> artworks s1 = artworks s"
  by (auto simp: fetchAllArtworks_def Let_def split: option.splits sum.splits prod.splits)

lemma allData_of_fields:
  "allData_of src s = Some (allData, s1) \<Longrightarrow>
     persistedSelection s1 = persistedSelection s \<and> selectCount s1 = selectCount s
     \<and> artworks s1 = artworks s"
  by (auto simp: allData_of_def Let_def dest: fetchAllArtworks_fields split: if_splits)

lemma commitRows_fields:
  "persistedSelection (commitRows allData s) =
     storeEach (take (nat (selectCount s)) allData) (persistedSelection s)"
  "allFetchedArtworks (commitRows allData s) = allFetchedArtworks s"
  "selectCount (commitRows allData s) = selectCount s"
  "requests (commitRows allData s) = requests s"
  by (simp_all add: commitRows_def Let_def)

lemma fetchAllArtworks_again:
  assumes "fetchAllArtworks src n s = Some (allData, s1)"
  shows "\<exists>s1'. fetchAllArtworks src n s' = Some (allData, s1')"
proof -
  from assms obtain log r where run: "fetchLoop src n [] {} 1 (requests s) = Some (log, r)"
    by (auto simp: fetchAllArtworks_def Let_def split: option.splits)
  from fetchLoop_log[OF run] obtain pages where
    again: "fetchLoop src n [] {} 1 (requests s') = Some (requests s' @ pages, r)"
    by auto
  show ?thesis
  proof (cases r)
    case (Inl e)
    with assms run again show ?thesis by (simp add: fetchAllArtworks_def Let_def)
  next
    case (Inr fetched)
    with assms run again show ?thesis by (simp add: fetchAllArtworks_def Let_def)
  qed
qed

lemma fetchAllArtworks_cache:
  "fetchAllArtworks src n s = Some (allData, s1) \<Longrightarrow>
     allFetchedArtworks s1 = allData
     \<or> (allData = [] \<and> allFetchedArtworks s1 = allFetchedArtworks s)"
  by (auto simp: fetchAllArtworks_def Let_def split: option.splits sum.splits prod.splits)

lemma allData_of_again:
  assumes "allData_of src s = Some (allData, s0)"
    and "selectCount s1 = selectCount s" and "allFetchedArtworks s1 = allFetchedArtworks s0"
  shows "\<exists>s1'. allData_of src s1 = Some (allData, s1')"
proof (cases "int (length (allFetchedArtworks s)) < selectCount s")
  case False
  with assms show ?thesis by (auto simp: allData_of_def)
next
  case True
  with assms have f: "fetchAllArtworks src (selectCount s) s = Some (allData, s0)"
    by (simp add: allData_of_def)
  from fetchAllArtworks_again[OF f] obtain s1' where
    again: "fetchAllArtworks src (selectCount s) s1 = Some (allData, s1')" by blast
  from fetchAllArtworks_cache[OF f] show ?thesis
  proof
    assume c: "allFetchedArtworks s0 = allData"
    show ?thesis
    proof (cases "int (length allData) < selectCount s")
      case True
      with c assms again show ?thesis by (simp add: allData_of_def)
    next
      case False
      with c assms show ?thesis by (simp add: allData_of_def)
    qed
  next
    assume "allData = [] \<and> allFetchedArtworks s0 = allFetchedArtworks s"
    with True assms again show ?thesis by (simp add: allData_of_def)
  qed
qed

text \<open>The bulk select completes against every source that ends or fails somewhere.\<close>

lemma handleSelectCount_completes:
  assumes "1 \<le> p"
    and "case src p of Inl err \<Rightarrow> True
         | Inr body \<Rightarrow> total_pages (pagination body) \<le> current_page (pagination body)"
  shows "\<exists>s'. handleSelectCount src s = Some s'"
proof -
  from assms have "\<exists>y. fetchLoop src (selectCount s) [] {} 1 (requests s) = Some y"
    by (rule fetchLoop_completes)
  then obtain y where
    "fetchLoop src (selectCount s) [] {} 1 (requests s) = Some y" by blast
  then show ?thesis
    by (cases y, cases "snd y")
       (auto simp: handleSelectCount_def allData_of_def fetchAllArtworks_def Let_def)
qed

subsection \<open>Page load\<close>


lemma loadPage_rejected:
  assumes "src p = Inl NetworkError \<or> src p = Inl NotJson"
  shows "loadPage src p s =
           Inr (s\<lparr>loading := False, requests := requests s @ [p],
                  console := console s @ [''Error fetching artworks:'']\<rparr>)"
  using assms by (auto simp: loadPage_def fetchArtworks_def Let_def)

lemma loadPage_without_data:
  assumes "src p = Inl (NoData info)"
  shows "loadPage src p s = Inl Unmounted"
  using assms by (cases info) (simp_all add: loadPage_def fetchArtworks_def Let_def)

lemma loadPage_frame:
  assumes "loadPage src p s = Inr s'"
  shows "persistedSelection s' = persistedSelection s \<and> page s' = page s
       \<and> allFetchedArtworks s' = allFetchedArtworks s"
proof (cases "src p")
  case (Inr body)
  with assms show ?thesis
    by (auto simp: loadPage_def fetchArtworks_def syncSelectedRows_def Let_def)
next
  case (Inl err)
  with assms show ?thesis
    by (cases err)
       (auto simp: loadPage_def fetchArtworks_def syncSelectedRows_def Let_def
          split: option.splits)
qed

lemma onPageChange_frame:
  assumes "onPageChange src eventPage s = Inr s'"
  shows "persistedSelection s' = persistedSelection s
       \<and> allFetchedArtworks s' = allFetchedArtworks s
       \<and> (eventPage + 1 \<noteq> page s \<longrightarrow> page s' = eventPage + 1)"
proof (cases "eventPage + 1 = page s")
  case True
  with assms show ?thesis by (simp add: onPageChange_def)
next
  case False
  with assms have "loadPage src (eventPage + 1) (s\<lparr>page := eventPage + 1\<rparr>) = Inr s'"
    by (simp add: onPageChange_def)
  from loadPage_frame[OF this] False show ?thesis by simp
qed



subsection \<open>Bulk select: the guard on the count\<close>

text \<open>
  Claim C4. For a count \<open>n \<le> 0\<close> the handler returns at once: the state after differs
  from the state before only by the appended ``Invalid Number'' warning. In particular
  the request log, the persisted selection and the cache are the same, so no page was
  requested and nothing was selected or cached.
\<close>

theorem invalid_count_rejected:
  assumes "selectCount s \<le> 0"
  shows "handleSelectCount src s =
           Some (s\<lparr>toasts := toasts s @
                  [\<lparr>severity = ''warn'', summary = ''Invalid Number'',
                    detail = ''Please enter a positive number''\<rparr>]\<rparr>)"
  using assms by (simp add: handleSelectCount_def)

theorem invalid_count_rejected_witness:
  "selectCount (page_one\<lparr>selectCount := - 1\<rparr>) \<le> 0
   \<and> map_option persistedSelection
         (handleSelectCount three_pages (page_one\<lparr>selectCount := - 1\<rparr>))
       = Some (persistedSelection page_one)
   \<and> map_option allFetchedArtworks
         (handleSelectCount three_pages (page_one\<lparr>selectCount := - 1\<rparr>))
       = Some (allFetchedArtworks page_one)
   \<and> map_option requests
         (handleSelectCount three_pages (page_one\<lparr>selectCount := - 1\<rparr>))
       = Some (requests page_one)
   \<and> map_option (\<lambda>s. map summary (toasts s))
         (handleSelectCount three_pages (page_one\<lparr>selectCount := - 1\<rparr>))
       = Some [''Invalid Number'']"
  using invalid_count_rejected [of "page_one\<lparr>selectCount := - 1\<rparr>" three_pages]
  by (simp add: page_one_def initial_def)

subsection \<open>Bulk select: drawing from the cache\<close>

text \<open>
  Claim C5. When the cache holds at least \<open>n\<close> records of pairwise different
  identity (so at least \<open>n\<close> records), a bulk select of \<open>n\<close> draws from the cache as
  it is, issues no page request and leaves the cache unchanged; for a positive \<open>n\<close>
  the records it stores are the first \<open>n\<close> of the cache.
\<close>

theorem cache_reuse:
  assumes "selectCount s \<le> int (card (id_of ` set (allFetchedArtworks s)))"
  shows "allData_of src s = Some (allFetchedArtworks s, s)
       \<and> (\<exists>s'. handleSelectCount src s = Some s'
              \<and> requests s' = requests s
              \<and> allFetchedArtworks s' = allFetchedArtworks s
              \<and> (0 < selectCount s \<longrightarrow>
                   persistedSelection s' =
                     storeEach (take (nat (selectCount s)) (allFetchedArtworks s))
                       (persistedSelection s)))"
proof -
  have "card (id_of ` set (allFetchedArtworks s)) \<le> length (allFetchedArtworks s)"
    by (rule order_trans[OF card_image_le card_length]) simp
  with assms have enough: "\<not> int (length (allFetchedArtworks s)) < selectCount s"
    by linarith
  then have cached: "allData_of src s = Some (allFetchedArtworks s, s)"
    by (rule allData_of_cached)
  show ?thesis
  proof (cases "selectCount s \<le> 0")
    case True
    then show ?thesis using cached by (simp add: handleSelectCount_def)
  next
    case False
    then show ?thesis using cached by (simp add: handleSelectCount_def commitRows_fields)
  qed
qed

theorem cache_reuse_witness:
  "selectCount (page_one\<lparr>selectCount := 3,
       allFetchedArtworks := [artwork 1 ''A'', artwork 2 ''B'', artwork 3 ''C'', artwork 4 ''D'']\<rparr>)
     \<le> int (card (id_of ` set (allFetchedArtworks (page_one\<lparr>selectCount := 3,
       allFetchedArtworks := [artwork 1 ''A'', artwork 2 ''B'', artwork 3 ''C'', artwork 4 ''D'']\<rparr>))))
   \<and> map_option requests
         (handleSelectCount second_page_fails (page_one\<lparr>selectCount := 3,
            allFetchedArtworks := [artwork 1 ''A'', artwork 2 ''B'', artwork 3 ''C'', artwork 4 ''D'']\<rparr>))
       = Some (requests page_one)
   \<and> map_option allFetchedArtworks
         (handleSelectCount second_page_fails (page_one\<lparr>selectCount := 3,
            allFetchedArtworks := [artwork 1 ''A'', artwork 2 ''B'', artwork 3 ''C'', artwork 4 ''D'']\<rparr>))
       = Some [artwork 1 ''A'', artwork 2 ''B'', artwork 3 ''C'', artwork 4 ''D'']
   \<and> map_option (\<lambda>s. dom (persistedSelection s))
         (handleSelectCount second_page_fails (page_one\<lparr>selectCount := 3,
            allFetchedArtworks := [artwork 1 ''A'', artwork 2 ''B'', artwork 3 ''C'', artwork 4 ''D'']\<rparr>))
       = Some {1, 2, 3, 30}"
  using cache_reuse [of "page_one\<lparr>selectCount := 3,
       allFetchedArtworks := [artwork 1 ''A'', artwork 2 ''B'', artwork 3 ''C'', artwork 4 ''D'']\<rparr>"
      second_page_fails]
  by (auto simp: run_simps)

subsection \<open>Bulk select: what a completed run commits\<close>

text \<open>
  Claim C2. Let \<open>n\<close> be positive and let the bulk select of \<open>n\<close> complete. With
  \<open>allData\<close> the records it drew from (the cache, or what the bulk fetch returned),
  each of the first \<open>min n (length allData)\<close> of them has its identity in the
  persisted selection afterwards; every identity selected before is still selected;
  and every key outside those first records maps to what it mapped to before.
\<close>

theorem bulk_select_adds:
  assumes "0 < selectCount s" and "handleSelectCount src s = Some s'"
  shows "\<exists>allData s1. allData_of src s = Some (allData, s1)
           \<and> (\<forall>a \<in> set (take (min (nat (selectCount s)) (length allData)) allData).
                  persistedSelection s' (id_of a) \<noteq> None)
           \<and> (\<forall>k. persistedSelection s k \<noteq> None \<longrightarrow> persistedSelection s' k \<noteq> None)
           \<and> (\<forall>k. k \<notin> id_of ` set (take (nat (selectCount s)) allData) \<longrightarrow>
                  persistedSelection s' k = persistedSelection s k)"
proof -
  from assms obtain allData s1 where
    a: "allData_of src s = Some (allData, s1)" and s': "s' = commitRows allData s1"
    by (auto simp: handleSelectCount_def split: option.splits)
  from allData_of_fields[OF a] have
    m: "persistedSelection s' =
          storeEach (take (nat (selectCount s)) allData) (persistedSelection s)"
    by (simp add: s' commitRows_fields)
  have dom: "dom (persistedSelection s') =
      dom (persistedSelection s) \<union> id_of ` set (take (nat (selectCount s)) allData)"
    by (simp add: m dom_storeEach)
  have "persistedSelection s' (id_of a) \<noteq> None"
    if "a \<in> set (take (min (nat (selectCount s)) (length allData)) allData)" for a
  proof -
    have "take (min (nat (selectCount s)) (length allData)) allData =
          take (nat (selectCount s)) allData"
      by (simp add: min_def)
    with that have "id_of a \<in> dom (persistedSelection s')" unfolding dom by simp
    then show ?thesis by (simp add: dom_def)
  qed
  moreover have "persistedSelection s' k \<noteq> None" if "persistedSelection s k \<noteq> None" for k
  proof -
    from that have "k \<in> dom (persistedSelection s')" unfolding dom by (simp add: dom_def)
    then show ?thesis by (simp add: dom_def)
  qed
  moreover have "persistedSelection s' k = persistedSelection s k"
    if "k \<notin> id_of ` set (take (nat (selectCount s)) allData)" for k
    using that by (simp add: m storeEach_other)
  ultimately show ?thesis using a by blast
qed

theorem bulk_select_adds_witness:
  "0 < selectCount (page_one\<lparr>selectCount := 3\<rparr>)
   \<and> map_option allFetchedArtworks
         (handleSelectCount three_pages (page_one\<lparr>selectCount := 3\<rparr>))
       = Some [artwork 1 ''A'', artwork 2 ''B'', artwork 3 ''C'', artwork 4 ''D'']
   \<and> map_option (\<lambda>s. dom (persistedSelection s))
         (handleSelectCount three_pages (page_one\<lparr>selectCount := 3\<rparr>))
       = Some {1, 2, 3, 30}"
  using bulk_select_adds [of "page_one\<lparr>selectCount := 3\<rparr>" three_pages
      "the (handleSelectCount three_pages (page_one\<lparr>selectCount := 3\<rparr>))"]
  by (auto simp: run_simps)

subsection \<open>Bulk select: a bulk fetch that throws\<close>

text \<open>
  Claim C10. Let \<open>n\<close> be positive and larger than the length of the cache, so that
  the bulk fetch runs, and let a page request of that fetch throw. Then the fetch
  returns the empty list, the bulk select completes, and the persisted selection and
  the cache after it are those before it.
\<close>

theorem failed_fetch_commits_nothing:
  assumes "0 < selectCount s"
    and "int (length (allFetchedArtworks s)) < selectCount s"
    and "fetchLoop src (selectCount s) [] {} 1 (requests s) = Some (log, Inl err)"
  shows "\<exists>s1 s'. fetchAllArtworks src (selectCount s) s = Some ([], s1)
           \<and> handleSelectCount src s = Some s'
           \<and> persistedSelection s' = persistedSelection s
           \<and> allFetchedArtworks s' = allFetchedArtworks s"
  using assms
  by (simp add: handleSelectCount_def allData_of_def fetchAllArtworks_def commitRows_fields)

theorem failed_fetch_commits_nothing_witness:
  "0 < selectCount (page_one\<lparr>selectCount := 5, allFetchedArtworks := [artwork 1 ''A'']\<rparr>)
   \<and> fetchLoop second_page_fails 5 [] {} 1 [1] = Some ([1, 1, 2], Inl NetworkError)
   \<and> map_option persistedSelection
         (handleSelectCount second_page_fails
            (page_one\<lparr>selectCount := 5, allFetchedArtworks := [artwork 1 ''A'']\<rparr>))
       = Some (persistedSelection page_one)
   \<and> map_option allFetchedArtworks
         (handleSelectCount second_page_fails
            (page_one\<lparr>selectCount := 5, allFetchedArtworks := [artwork 1 ''A'']\<rparr>))
       = Some [artwork 1 ''A'']"
  using failed_fetch_commits_nothing
     [of "page_one\<lparr>selectCount := 5, allFetchedArtworks := [artwork 1 ''A'']\<rparr>"
         second_page_fails "[1, 1, 2]" NetworkError]
  by (auto simp: run_simps)

subsection \<open>Bulk select twice\<close>

text \<open>
  Claim C7. Let \<open>n\<close> be positive and let the bulk select of \<open>n\<close> complete in state
  \<open>s1\<close>. Against the same source a second bulk select of \<open>n\<close> started in \<open>s1\<close>
  completes as well, and its persisted selection equals that of \<open>s1\<close>.
\<close>

theorem bulk_select_idempotent:
  assumes "0 < selectCount s" and "handleSelectCount src s = Some s1"
  shows "\<exists>s2. handleSelectCount src s1 = Some s2
              \<and> persistedSelection s2 = persistedSelection s1"
proof -
  from assms obtain allData s0 where
    a: "allData_of src s = Some (allData, s0)" and s1: "s1 = commitRows allData s0"
    by (auto simp: handleSelectCount_def split: option.splits)
  from allData_of_fields[OF a] have
    n: "selectCount s1 = selectCount s"
    and m1: "persistedSelection s1 =
          storeEach (take (nat (selectCount s)) allData) (persistedSelection s)"
    by (simp_all add: s1 commitRows_fields)
  have "allFetchedArtworks s1 = allFetchedArtworks s0"
    by (simp add: s1 commitRows_fields)
  from allData_of_again[OF a n this] obtain s1' where
    b: "allData_of src s1 = Some (allData, s1')" by blast
  from allData_of_fields[OF b] have
    "persistedSelection (commitRows allData s1') = persistedSelection s1"
    by (simp add: commitRows_fields n m1 storeEach_twice)
  moreover from assms(1) b n have "handleSelectCount src s1 = Some (commitRows allData s1')"
    by (simp add: handleSelectCount_def)
  ultimately show ?thesis by blast
qed

theorem bulk_select_idempotent_witness:
  "0 < selectCount (page_one\<lparr>selectCount := 3\<rparr>)
   \<and> handleSelectCount three_pages (page_one\<lparr>selectCount := 3\<rparr>) \<noteq> None
   \<and> map_option persistedSelection
         (Option.bind (handleSelectCount three_pages (page_one\<lparr>selectCount := 3\<rparr>))
            (handleSelectCount three_pages))
       = map_option persistedSelection
           (handleSelectCount three_pages (page_one\<lparr>selectCount := 3\<rparr>))"
  using bulk_select_idempotent [of "page_one\<lparr>selectCount := 3\<rparr>" three_pages
      "the (handleSelectCount three_pages (page_one\<lparr>selectCount := 3\<rparr>))"]
  by (auto simp: run_simps)

section \<open>A page request that fails during the bulk fetch\<close>

text \<open>
  A run whose first \<open>m\<close> rounds all went on reaches the loop test of round \<open>m + 1\<close>
  with the variables given by \<open>after_rounds\<close>, having requested pages 1 to \<open>m\<close>.
\<close>

lemma fetchLoop_after_rounds:
  "after_rounds src n m = Some (f, seen) \<Longrightarrow>
     fetchLoop src n [] {} 1 log =
       fetchLoop src n f seen (int m + 1) (log @ map int [1..<Suc m])"
proof (induction m arbitrary: f seen)
  case 0
  then show ?case by simp
next
  case (Suc m)
  from Suc.prems obtain f0 seen0 body where
    before: "after_rounds src n m = Some (f0, seen0)"
    and lt: "int (length f0) < n"
    and body: "src (int m + 1) = Inr body"
    and more: "\<not> total_pages (pagination body) \<le> current_page (pagination body)"
    and acc: "(f, seen) = addPage (data body) (f0, seen0)"
    by (auto split: option.splits if_splits sum.splits)
  from acc have f: "f = f0 @ filter (\<lambda>item. id_of item \<notin> seen0) (data body)"
    and seen: "seen = seen0 \<union> id_of ` set (data body)"
    by (simp_all add: addPage_conv)
  have "fetchLoop src n [] {} 1 log =
          fetchLoop src n f0 seen0 (int m + 1) (log @ map int [1..<Suc m])"
    by (rule Suc.IH[OF before])
  also have "\<dots> = fetchLoop src n f seen (int m + 1 + 1)
                     ((log @ map int [1..<Suc m]) @ [int m + 1])"
    unfolding f seen using lt body more by (rule fetchLoop_next)
  finally have "fetchLoop src n [] {} 1 log =
      fetchLoop src n f seen (int m + 1 + 1) ((log @ map int [1..<Suc m]) @ [int m + 1])" .
  moreover have "int (Suc m) + 1 = int m + 1 + 1" by simp
  moreover have "log @ map int [1..<Suc (Suc m)] = (log @ map int [1..<Suc m]) @ [int m + 1]"
    by simp
  ultimately show ?case by (simp only:)
qed

text \<open>
  Claim C3, as stated, fails. Against \<open>second_page_fails\<close> a bulk fetch for 5 has
  accumulated the two records of page 1 when the request for page 2 fails; the fetcher
  then returns the empty list, not those two records, and the bulk select waiting for
  it selects nothing.
\<close>

theorem fetch_failure_drops_accumulated:
  "map_option fst (after_rounds second_page_fails 5 1)
     = Some [artwork 1 ''A'', artwork 2 ''B'']
   \<and> second_page_fails 2 = Inl NetworkError
   \<and> map_option fst (fetchAllArtworks second_page_fails 5 (initial\<lparr>selectCount := 5\<rparr>))
       = Some []
   \<and> map_option fst (fetchAllArtworks second_page_fails 5 (initial\<lparr>selectCount := 5\<rparr>))
       \<noteq> Some [artwork 1 ''A'', artwork 2 ''B'']
   \<and> map_option persistedSelection
         (handleSelectCount second_page_fails (initial\<lparr>selectCount := 5\<rparr>))
       = Some Map.empty"
  by (simp add: run_simps addPage_conv)

text \<open>
  Claim C3, amended. Let the first \<open>m\<close> rounds of a bulk fetch have accumulated
  \<open>fetched\<close> (any number of records, fewer than asked for) and let the request for page
  \<open>m + 1\<close> fail. Then the fetcher catches the exception, logs it and returns the empty
  list: the accumulated records are dropped. It has requested pages 1 to \<open>m + 1\<close> and
  leaves everything else, the cache included, as it was. A bulk select that called it
  completes, and its persisted selection and cache are those before the call.
\<close>

theorem fetch_failure_returns_empty:
  assumes "after_rounds src n m = Some (fetched, seenIds)"
    and "int (length fetched) < n"
    and "src (int m + 1) = Inl err"
  shows "fetchAllArtworks src n s =
           Some ([], s\<lparr>requests := requests s @ map int [1..<Suc (Suc m)],
                       console := console s @ [''Error fetching all artworks:''],
                       overlayLoading := False\<rparr>)
       \<and> (selectCount s = n \<and> int (length (allFetchedArtworks s)) < n \<longrightarrow>
            (\<exists>s'. handleSelectCount src s = Some s'
                 \<and> persistedSelection s' = persistedSelection s
                 \<and> allFetchedArtworks s' = allFetchedArtworks s))"
proof -
  have "fetchLoop src n [] {} 1 (requests s) =
          fetchLoop src n fetched seenIds (int m + 1) (requests s @ map int [1..<Suc m])"
    by (rule fetchLoop_after_rounds[OF assms(1)])
  also have "\<dots> = Some ((requests s @ map int [1..<Suc m]) @ [int m + 1], Inl err)"
    using assms(2,3) by (rule fetchLoop_fail)
  finally have run: "fetchLoop src n [] {} 1 (requests s) =
                       Some (requests s @ map int [1..<Suc (Suc m)], Inl err)"
    by simp
  then have fetch: "fetchAllArtworks src n s =
           Some ([], s\<lparr>requests := requests s @ map int [1..<Suc (Suc m)],
                       console := console s @ [''Error fetching all artworks:''],
                       overlayLoading := False\<rparr>)"
    by (simp add: fetchAllArtworks_def Let_def)
  moreover have "\<exists>s'. handleSelectCount src s = Some s'
                 \<and> persistedSelection s' = persistedSelection s
                 \<and> allFetchedArtworks s' = allFetchedArtworks s"
    if "selectCount s = n" "int (length (allFetchedArtworks s)) < n"
    using that fetch
    by (simp add: handleSelectCount_def allData_of_def commitRows_fields)
  ultimately show ?thesis by blast
qed

theorem fetch_failure_returns_empty_witness:
  "map_option fst (after_rounds second_page_fails 5 1)
     = Some [artwork 1 ''A'', artwork 2 ''B'']
   \<and> second_page_fails 2 = Inl NetworkError
   \<and> map_option fst (fetchAllArtworks second_page_fails 5 (page_one\<lparr>selectCount := 5\<rparr>))
       = Some []
   \<and> map_option (requests \<circ> snd)
         (fetchAllArtworks second_page_fails 5 (page_one\<lparr>selectCount := 5\<rparr>))
       = Some [1, 1, 2]
   \<and> map_option persistedSelection
         (handleSelectCount second_page_fails (page_one\<lparr>selectCount := 5\<rparr>))
       = Some (persistedSelection page_one)"
proof -
  have a: "after_rounds second_page_fails 5 1 =
             Some ([artwork 1 ''A'', artwork 2 ''B''], {1, 2})"
    by (auto simp: run_simps addPage_conv)
  have b: "int (length [artwork 1 ''A'', artwork 2 ''B'']) < 5" by simp
  have c: "second_page_fails (int 1 + 1) = Inl NetworkError"
    by (simp add: second_page_fails_def)
  have d: "second_page_fails 2 = Inl NetworkError"
    by (simp add: second_page_fails_def)
  show ?thesis
    using fetch_failure_returns_empty [OF a b c, of "page_one\<lparr>selectCount := 5\<rparr>"] a d
    by (auto simp: page_one_def initial_def)
qed

section \<open>What the bulk fetch accumulates\<close>

lemma filter_unseen_first_arrivals:
  "distinct (map id_of d) \<Longrightarrow> filter (\<lambda>item. id_of item \<notin> seen) d = first_arrivals seen d"
proof (induction d arbitrary: seen)
  case Nil
  then show ?case by simp
next
  case (Cons a d)
  then have IH: "first_arrivals seen' d = filter (\<lambda>item. id_of item \<notin> seen') d" for seen'
    by simp
  show ?case
  proof (cases "id_of a \<in> seen")
    case True
    then show ?thesis by (simp add: IH)
  next
    case False
    from Cons.prems have "filter (\<lambda>item. id_of item \<notin> insert (id_of a) seen) d =
               filter (\<lambda>item. id_of item \<notin> seen) d"
      by (intro filter_cong refl) (auto simp: image_iff)
    with False show ?thesis by (simp add: IH)
  qed
qed

lemma first_arrivals_append:
  "first_arrivals seen (xs @ ys) =
     first_arrivals seen xs @ first_arrivals (seen \<union> id_of ` set xs) ys"
  by (induction xs arbitrary: seen) (auto simp: insert_absorb)

lemma ids_first_arrivals:
  "id_of ` set (first_arrivals seen xs) = id_of ` set xs - seen"
  by (induction xs arbitrary: seen) auto

lemma distinct_first_arrivals: "distinct (map id_of (first_arrivals seen xs))"
proof (induction xs arbitrary: seen)
  case Nil
  then show ?case by simp
next
  case (Cons a xs)
  have "id_of a \<notin> id_of ` set (first_arrivals (insert (id_of a) seen) xs)"
    unfolding ids_first_arrivals by simp
  with Cons show ?case by simp
qed

lemma arrivals_simps:
  "arrivals src [] = []"
  "arrivals src (p # ps) =
     (case src p of Inr body \<Rightarrow> data body | Inl err \<Rightarrow> []) @ arrivals src ps"
  by (simp_all add: arrivals_def)

lemma fetchLoop_first_arrivals:
  assumes run: "fetchLoop src n f seen cur log = Some y"
    and pd: "\<forall>p body. src p = Inr body \<longrightarrow> distinct (map id_of (data body))"
  shows "\<exists>pages. fst y = log @ pages \<and>
           (\<forall>r. snd y = Inr r \<longrightarrow> r = f @ first_arrivals seen (arrivals src pages))"
  using run
proof (induction rule: fetchLoop_induct)
  case (stop f seen cur log)
  show ?case by (intro exI[of _ "[]"]) (simp add: arrivals_simps)
next
  case (fail f seen cur log e)
  show ?case by (intro exI[of _ "[cur]"]) simp
next
  case (last f seen cur log body)
  with pd show ?case
    by (intro exI[of _ "[cur]"]) (simp add: arrivals_simps filter_unseen_first_arrivals)
next
  case (continue f seen cur log body y)
  then obtain pages where p: "fst y = (log @ [cur]) @ pages"
    and r: "\<forall>r. snd y = Inr r \<longrightarrow>
              r = (f @ filter (\<lambda>item. id_of item \<notin> seen) (data body))
                  @ first_arrivals (seen \<union> id_of ` set (data body)) (arrivals src pages)"
    by blast
  from pd continue(2) have "distinct (map id_of (data body))" by blast
  with p r continue(2) show ?case
    by (intro exI[of _ "cur # pages"])
       (simp add: arrivals_simps filter_unseen_first_arrivals first_arrivals_append)
qed

text \<open>
  Claim C9, as stated, fails: the filter of a round tests against the identities seen
  on earlier pages only, so a page that lists an identity twice brings it in twice.
\<close>

theorem repeated_identity_within_page:
  "fetchLoop repeating_page 2 [] {} 1 [] = Some ([1], Inr [artwork 1 ''A'', artwork 1 ''A''])
   \<and> \<not> distinct (map id_of [artwork 1 ''A'', artwork 1 ''A''])"
  by (simp add: run_simps repeating_page_def)

text \<open>
  Claim C9, amended. Let no single page of the source list an identity twice; pages
  may overlap with one another. When the loop ends normally, the accumulated list has
  no identity twice, and it consists of the first arrival of every identity among the
  records of the requested pages, in arrival order.
\<close>

theorem accumulated_first_arrivals:
  assumes "\<forall>p body. src p = Inr body \<longrightarrow> distinct (map id_of (data body))"
    and "fetchLoop src n [] {} 1 log = Some (log', Inr fetched)"
  shows "distinct (map id_of fetched)
       \<and> fetched = first_arrivals {} (arrivals src (drop (length log) log'))
       \<and> id_of ` set fetched = id_of ` set (arrivals src (drop (length log) log'))"
proof -
  from fetchLoop_first_arrivals[OF assms(2,1)] obtain pages where
    "log' = log @ pages" and "fetched = first_arrivals {} (arrivals src pages)"
    by auto
  then show ?thesis by (simp add: distinct_first_arrivals ids_first_arrivals)
qed

theorem accumulated_first_arrivals_witness:
  "fetchLoop overlapping_pages 5 [] {} 1 [] =
     Some ([1, 2], Inr [artwork 1 ''A'', artwork 2 ''B'', artwork 3 ''C''])
   \<and> arrivals overlapping_pages [1, 2] =
       [artwork 1 ''A'', artwork 2 ''B'', artwork 2 ''B'', artwork 3 ''C'']
   \<and> distinct (map id_of [artwork 1 ''A'', artwork 2 ''B'', artwork 3 ''C''])
   \<and> [artwork 1 ''A'', artwork 2 ''B'', artwork 3 ''C''] =
       first_arrivals {} (arrivals overlapping_pages [1, 2])"
proof -
  have a: "\<forall>p body. overlapping_pages p = Inr body \<longrightarrow> distinct (map id_of (data body))"
    by (auto simp: overlapping_pages_def body_of_def artwork_def)
  have b: "fetchLoop overlapping_pages 5 [] {} 1 [] =
     Some ([1, 2], Inr [artwork 1 ''A'', artwork 2 ''B'', artwork 3 ''C''])"
    by (simp add: run_simps overlapping_pages_def)
  show ?thesis
    using accumulated_first_arrivals [OF a b]
    by (simp add: b arrivals_def overlapping_pages_def body_of_def)
qed

section \<open>The cache over a session\<close>

lemma fetchLoop_first_request:
  assumes "int (length f) < n" and run: "fetchLoop src n f seen cur log = Some y"
  shows "\<exists>rest. fst y = log @ cur # rest"
proof (cases "src cur")
  case (Inl e)
  with assms show ?thesis by (auto simp: fetchLoop_fail)
next
  case (Inr body)
  show ?thesis
  proof (cases "total_pages (pagination body) \<le> current_page (pagination body)")
    case True
    with assms Inr show ?thesis by (auto simp: fetchLoop_last)
  next
    case False
    with assms Inr have
      "fetchLoop src n (f @ filter (\<lambda>item. id_of item \<notin> seen) (data body))
         (seen \<union> id_of ` set (data body)) (cur + 1) (log @ [cur]) = Some y"
      by (simp add: fetchLoop_next)
    from fetchLoop_log[OF this] show ?thesis by auto
  qed
qed

lemma handleSelectCount_cache:
  assumes "handleSelectCount src s = Some s'"
  shows "(allFetchedArtworks s' = allFetchedArtworks s
            \<and> (\<not> int (length (allFetchedArtworks s)) < selectCount s \<longrightarrow>
                   requests s' = requests s))
       \<or> (int (length (allFetchedArtworks s)) < selectCount s
            \<and> (\<exists>log. fetchLoop src (selectCount s) [] {} 1 (requests s)
                          = Some (log, Inr (allFetchedArtworks s'))))"
  using assms
  by (auto simp: handleSelectCount_def allData_of_def fetchAllArtworks_def Let_def
      commitRows_fields split: if_splits option.splits sum.splits prod.splits)

lemma handleSelectCount_fetch:
  assumes "handleSelectCount src s = Some s'"
    and "int (length (allFetchedArtworks s)) < selectCount s"
  shows "\<exists>log result pages.
           fetchLoop src (selectCount s) [] {} 1 (requests s) = Some (log, result)
           \<and> log = requests s @ 1 # pages \<and> requests s' = log
           \<and> allFetchedArtworks s' =
                 (case result of Inr fetched \<Rightarrow> fetched | Inl err \<Rightarrow> allFetchedArtworks s)"
proof -
  from assms obtain log result where
    run: "fetchLoop src (selectCount s) [] {} 1 (requests s) = Some (log, result)"
    and log: "requests s' = log"
    and cache: "allFetchedArtworks s' =
                 (case result of Inr fetched \<Rightarrow> fetched | Inl err \<Rightarrow> allFetchedArtworks s)"
    by (auto simp: handleSelectCount_def allData_of_def fetchAllArtworks_def Let_def
        commitRows_fields split: if_splits option.splits sum.splits prod.splits)
  from assms(2) have "int (length ([] :: Artwork list)) < selectCount s" by simp
  from fetchLoop_first_request[OF this run] obtain pages where
    "log = requests s @ 1 # pages" by auto
  with run log cache show ?thesis by blast
qed

lemma handleSelectCount_served:
  assumes "handleSelectCount src s = Some s'"
    and "\<not> int (length (allFetchedArtworks s)) < selectCount s"
  shows "requests s' = requests s \<and> allFetchedArtworks s' = allFetchedArtworks s"
  using assms
  by (auto simp: handleSelectCount_def allData_of_def commitRows_fields split: if_splits)

lemma session_cache:
  "session src s \<Longrightarrow>
     allFetchedArtworks s = [] \<or>
     (\<exists>n log y. fetchLoop src n [] {} 1 log = Some y \<and> snd y = Inr (allFetchedArtworks s))"
proof (induction rule: session.induct)
  case (mounted s)
  from loadPage_frame[OF this] show ?case by (simp add: initial_def)
next
  case (paged s eventPage s')
  from onPageChange_frame[OF paged(2)] paged.IH show ?case by simp
next
  case (edited s newSelection)
  then show ?case by (simp add: onSelectionChange_def Let_def)
next
  case (toggled s)
  then show ?case by (simp add: toggleOverlay_def)
next
  case (typed s v)
  then show ?case by (simp add: onValueChange_def)
next
  case (submitted s)
  then show ?case by (simp add: handleSubmit_def Let_def)
next
  case (bulk s s')
  from handleSelectCount_cache[OF bulk(2)] show ?case
  proof
    assume "allFetchedArtworks s' = allFetchedArtworks s
            \<and> (\<not> int (length (allFetchedArtworks s)) < selectCount s \<longrightarrow>
                   requests s' = requests s)"
    with bulk.IH show ?thesis by simp
  next
    assume "int (length (allFetchedArtworks s)) < selectCount s
            \<and> (\<exists>log. fetchLoop src (selectCount s) [] {} 1 (requests s)
                          = Some (log, Inr (allFetchedArtworks s')))"
    then obtain log where
      "fetchLoop src (selectCount s) [] {} 1 (requests s) = Some (log, Inr (allFetchedArtworks s'))"
      by blast
    then have "\<exists>y. fetchLoop src (selectCount s) [] {} 1 (requests s) = Some y
                 \<and> snd y = Inr (allFetchedArtworks s')"
      by simp
    then show ?thesis by blast
  qed
qed

text \<open>
  Claim C6, as stated, fails in three ways. With the records of page 1 in the cache, a
  bulk select of 3 requests page 1 again before page 2. When the collection behind the
  endpoint has changed, the new cache does not keep the cached records. And a page that
  repeats an identity puts it into the cache twice.
\<close>

theorem cache_refetched_from_page_one:
  "allFetchedArtworks cached_two = [artwork 1 ''A'', artwork 2 ''B'']
   \<and> arrivals three_pages [1] = [artwork 1 ''A'', artwork 2 ''B'']
   \<and> map_option requests (handleSelectCount three_pages cached_two)
       = Some (requests cached_two @ [1, 2])
   \<and> map_option allFetchedArtworks (handleSelectCount replaced_collection cached_two)
       = Some [artwork 7 ''G'', artwork 8 ''H'', artwork 9 ''I'']
   \<and> \<not> prefix (allFetchedArtworks cached_two)
           [artwork 7 ''G'', artwork 8 ''H'', artwork 9 ''I'']
   \<and> map_option allFetchedArtworks (handleSelectCount repeating_page cached_two)
       = Some [artwork 1 ''A'', artwork 1 ''A'']"
  by (simp add: cached_two_def run_simps arrivals_def replaced_collection_def
      repeating_page_def)

text \<open>
  Claim C6, amended. In a session against a source whose answers do not change, every
  bulk select that completes leaves the records cached before as a prefix of the cache
  after it, and the cache has no identity twice provided no single page lists one
  twice. The cache is not extended in place. A bulk select for more records than the
  cache holds runs the fetch loop from empty accumulators, requesting the pages again
  starting with page 1; when the loop ends normally the cache after it is the list the
  loop accumulated, and when a request of the loop fails the cache stays as it was. A
  bulk select that the cache can serve requests no page and leaves the cache as it is.
\<close>

theorem cache_grows_by_refetching:
  assumes "session src s" and "handleSelectCount src s = Some s'"
  shows "prefix (allFetchedArtworks s) (allFetchedArtworks s')
       \<and> (int (length (allFetchedArtworks s)) < selectCount s \<longrightarrow>
            (\<exists>log result pages.
                fetchLoop src (selectCount s) [] {} 1 (requests s) = Some (log, result)
                \<and> log = requests s @ 1 # pages \<and> requests s' = log
                \<and> allFetchedArtworks s' =
                      (case result of Inr fetched \<Rightarrow> fetched
                       | Inl err \<Rightarrow> allFetchedArtworks s)))
       \<and> (\<not> int (length (allFetchedArtworks s)) < selectCount s \<longrightarrow>
            requests s' = requests s \<and> allFetchedArtworks s' = allFetchedArtworks s)
       \<and> ((\<forall>p body. src p = Inr body \<longrightarrow> distinct (map id_of (data body))) \<longrightarrow>
            distinct (map id_of (allFetchedArtworks s')))"
proof (intro conjI impI)
  from handleSelectCount_cache[OF assms(2)]
  show "prefix (allFetchedArtworks s) (allFetchedArtworks s')"
  proof
    assume "allFetchedArtworks s' = allFetchedArtworks s
            \<and> (\<not> int (length (allFetchedArtworks s)) < selectCount s \<longrightarrow>
                   requests s' = requests s)"
    then show ?thesis by simp
  next
    assume new: "int (length (allFetchedArtworks s)) < selectCount s
            \<and> (\<exists>log. fetchLoop src (selectCount s) [] {} 1 (requests s)
                          = Some (log, Inr (allFetchedArtworks s')))"
    then obtain log where run:
      "fetchLoop src (selectCount s) [] {} 1 (requests s) = Some (log, Inr (allFetchedArtworks s'))"
      by blast
    from session_cache[OF assms(1)] show ?thesis
    proof
      assume "allFetchedArtworks s = []"
      then show ?thesis by simp
    next
      assume "\<exists>n log y. fetchLoop src n [] {} 1 log = Some y
                \<and> snd y = Inr (allFetchedArtworks s)"
      then obtain n0 log0 y where old: "fetchLoop src n0 [] {} 1 log0 = Some y"
        and y: "snd y = Inr (allFetchedArtworks s)" by blast
      from new have "int (length (allFetchedArtworks s)) < selectCount s" ..
      with old y run show ?thesis by (rule fetchLoop_compare)
    qed
  qed
next
  assume "int (length (allFetchedArtworks s)) < selectCount s"
  with assms(2) show "\<exists>log result pages.
                fetchLoop src (selectCount s) [] {} 1 (requests s) = Some (log, result)
                \<and> log = requests s @ 1 # pages \<and> requests s' = log
                \<and> allFetchedArtworks s' =
                      (case result of Inr fetched \<Rightarrow> fetched
                       | Inl err \<Rightarrow> allFetchedArtworks s)"
    by (rule handleSelectCount_fetch)
next
  assume "\<not> int (length (allFetchedArtworks s)) < selectCount s"
  with assms(2) show "requests s' = requests s"
    by (simp add: handleSelectCount_served)
next
  assume "\<not> int (length (allFetchedArtworks s)) < selectCount s"
  with assms(2) show "allFetchedArtworks s' = allFetchedArtworks s"
    by (simp add: handleSelectCount_served)
next
  assume pd: "\<forall>p body. src p = Inr body \<longrightarrow> distinct (map id_of (data body))"
  from assms have "session src s'" by (rule session.bulk)
  from session_cache[OF this] show "distinct (map id_of (allFetchedArtworks s'))"
  proof
    assume "allFetchedArtworks s' = []"
    then show ?thesis by simp
  next
    assume "\<exists>n log y. fetchLoop src n [] {} 1 log = Some y
              \<and> snd y = Inr (allFetchedArtworks s')"
    then obtain n0 log0 y where run: "fetchLoop src n0 [] {} 1 log0 = Some y"
      and y: "snd y = Inr (allFetchedArtworks s')" by blast
    from fetchLoop_first_arrivals[OF run pd] y show ?thesis
      by (auto simp: distinct_first_arrivals)
  qed
qed

theorem cache_grows_by_refetching_witness:
  "\<exists>s s' s''. session three_pages s
      \<and> allFetchedArtworks s = [artwork 1 ''A'', artwork 2 ''B''] \<and> selectCount s = 3
      \<and> handleSelectCount three_pages s = Some s'
      \<and> fetchLoop three_pages 3 [] {} 1 (requests s) =
            Some (requests s @ [1, 2],
                  Inr [artwork 1 ''A'', artwork 2 ''B'', artwork 3 ''C'', artwork 4 ''D''])
      \<and> allFetchedArtworks s' =
            [artwork 1 ''A'', artwork 2 ''B'', artwork 3 ''C'', artwork 4 ''D'']
      \<and> prefix (allFetchedArtworks s) (allFetchedArtworks s')
      \<and> requests s' = requests s @ [1, 2]
      \<and> distinct (map id_of (allFetchedArtworks s'))
      \<and> handleSelectCount three_pages s' = Some s''
      \<and> requests s'' = requests s' \<and> allFetchedArtworks s'' = allFetchedArtworks s'"
proof -
  have "\<exists>s0. loadPage three_pages 1 initial = Inr s0 \<and> allFetchedArtworks s0 = []"
    by (simp add: loadPage_def fetchArtworks_def syncSelectedRows_def Let_def three_pages_def
        initial_def)
  then obtain s0 where "loadPage three_pages 1 initial = Inr s0"
    and c0: "allFetchedArtworks s0 = []" by blast
  then have s0: "session three_pages s0" by (simp add: session.mounted)
  define s1 where "s1 = onValueChange (Some 2) s0"
  have s1: "session three_pages s1" unfolding s1_def using s0 by (rule session.typed)
  have "\<exists>s2. handleSelectCount three_pages s1 = Some s2
      \<and> allFetchedArtworks s2 = [artwork 1 ''A'', artwork 2 ''B'']"
    by (simp add: s1_def onValueChange_def c0 handleSelectCount_def allData_of_def
        fetchAllArtworks_def Let_def commitRows_fields fetchLoop_stop fetchLoop_fail
        fetchLoop_last fetchLoop_next three_pages_def body_of_def artwork_def)
  with s1 obtain s2 where s2: "session three_pages s2"
    and c2: "allFetchedArtworks s2 = [artwork 1 ''A'', artwork 2 ''B'']"
    by (auto intro: session.bulk)
  define s3 where "s3 = onValueChange (Some 3) s2"
  have s3: "session three_pages s3" unfolding s3_def using s2 by (rule session.typed)
  have n3: "selectCount s3 = 3" and c3: "allFetchedArtworks s3 = [artwork 1 ''A'', artwork 2 ''B'']"
    by (simp_all add: s3_def onValueChange_def c2)
  have run: "fetchLoop three_pages 3 [] {} 1 (requests s3) =
            Some (requests s3 @ [1, 2],
                  Inr [artwork 1 ''A'', artwork 2 ''B'', artwork 3 ''C'', artwork 4 ''D''])"
    by (simp add: fetchLoop_stop fetchLoop_fail fetchLoop_last fetchLoop_next
        three_pages_def body_of_def artwork_def)
  have "\<exists>s4. handleSelectCount three_pages s3 = Some s4 \<and> selectCount s4 = 3"
    by (simp add: n3 c3 run handleSelectCount_def allData_of_def fetchAllArtworks_def Let_def
        commitRows_fields)
  then obtain s4 where h4: "handleSelectCount three_pages s3 = Some s4"
    and n4: "selectCount s4 = 3" by blast
  have pd: "\<forall>p body. three_pages p = Inr body \<longrightarrow> distinct (map id_of (data body))"
    by (auto simp: three_pages_def body_of_def artwork_def split: if_splits)
  have lt: "int (length (allFetchedArtworks s3)) < selectCount s3"
    by (simp add: n3 c3)
  from cache_grows_by_refetching [OF s3 h4] pd lt run n3
  have grow: "prefix (allFetchedArtworks s3) (allFetchedArtworks s4)"
    and r4: "requests s4 = requests s3 @ [1, 2]"
    and c4: "allFetchedArtworks s4 =
            [artwork 1 ''A'', artwork 2 ''B'', artwork 3 ''C'', artwork 4 ''D'']"
    and d4: "distinct (map id_of (allFetchedArtworks s4))"
    by auto
  from s3 h4 have s4: "session three_pages s4" by (rule session.bulk)
  have "\<exists>s5. handleSelectCount three_pages s4 = Some s5"
    by (simp add: n4 c4 handleSelectCount_def allData_of_def)
  then obtain s5 where h5: "handleSelectCount three_pages s4 = Some s5" by blast
  have "\<not> int (length (allFetchedArtworks s4)) < selectCount s4"
    by (simp add: n4 c4)
  with cache_grows_by_refetching [OF s4 h5]
  have "requests s5 = requests s4" and "allFetchedArtworks s5 = allFetchedArtworks s4"
    by simp_all
  with s3 n3 c3 h4 run grow r4 c4 d4 h5 show ?thesis
    by (intro exI[of _ s3] exI[of _ s4] exI[of _ s5]) simp
qed

end
